theory Spec2Isabelle
  imports Main "HOL-Library.Word"
begin

section \<open>The power-down manager of components/bpp-recv/powerdown.c\<close>

text \<open>
  The manager keeps a linked list of \<open>PowerItem\<close>s (one per owner reference), the
  array \<open>savedWakeTimestamp\<close> (one 64-bit millisecond timestamp per power mode, kept in
  RTC memory), the current \<open>powerMode\<close> and the callback \<open>pdCb\<close>. The model passes this
  state explicitly.

  Integers. \<open>uint64_t\<close> is \<open>64 word\<close>: its arithmetic wraps and its comparisons are
  unsigned. The fields of \<open>struct timeval\<close> (the platform's \<open>time_t\<close> and
  \<open>suseconds_t\<close>) are mathematical integers. The \<open>int mssleep\<close> of lines 87 and 88 is
  32 bits wide: the difference of two instants in milliseconds is reduced to 32 bits,
  two's complement (\<open>s32\<close>), which is what the target computes whether \<open>time_t\<close> has
  32 or 64 bits. \<open>/\<close> and \<open>%\<close> truncate towards zero, as C's do. Conversions between
  signed and unsigned are written out.

  The clock. \<open>gettimeofday\<close> is read once per scanned item and once per
  \<open>getCurrentTimeMs()\<close> call, so one pass may see several instants. The clock is a
  function \<open>clk\<close> from the number of reads made so far to the instant read, and the state
  counts the reads in \<open>ticks\<close>. A property that speaks of one \<open>now\<close> for a whole
  pass is stated for a clock that returns \<open>now\<close> at every read.

  \<open>NO_POWER_MODES\<close>, \<open>PowerMode\<close> and \<open>PowerDownCb\<close> are declared in powerdown.h:
  the number of modes is the length of the table, a mode is an index, and of the
  callback only its invocations are recorded. C leaves an access to
  \<open>savedWakeTimestamp\<close> outside its bounds undefined; the properties that read the
  entry of the current mode assume \<open>powerMode\<close> below \<open>NO_POWER_MODES\<close>.
\<close>

subsection \<open>Data\<close>

record timeval =
  tv_sec :: int
  tv_usec :: int

abbreviation (input) ST_ACTIVE :: int where "ST_ACTIVE \<equiv> 0"
abbreviation (input) ST_CANSLEEP :: int where "ST_CANSLEEP \<equiv> 1"
abbreviation (input) ST_CANSLEEP_UNTIL :: int where "ST_CANSLEEP_UNTIL \<equiv> 2"

record PowerItem =
  ref :: int
  state :: int
  sleepUntil :: timeval

record powerdown =
  powerItems :: "PowerItem list"
  savedWakeTimestamp :: "64 word list"
  powerMode :: nat
  pdCb :: bool
  cbCalls :: "(int \<times> nat) list"
  ticks :: nat
  tmrResets :: nat

text \<open>
  \<open>pdCb\<close> tells whether a callback is installed (the pointer is not \<open>NULL\<close>);
  \<open>cbCalls\<close> is the list of its invocations so far, oldest first, each with the
  \<open>sleepMs\<close> and \<open>nextMode\<close> it received; \<open>tmrResets\<close> counts the calls of
  \<open>xTimerReset\<close>.
\<close>

definition NO_POWER_MODES :: "powerdown \<Rightarrow> nat" where
  "NO_POWER_MODES s = length (savedWakeTimestamp s)"

subsection \<open>C arithmetic\<close>

definition c_div :: "int \<Rightarrow> int \<Rightarrow> int" where
  "c_div a b = sgn a * sgn b * (\<bar>a\<bar> div \<bar>b\<bar>)"

definition c_mod :: "int \<Rightarrow> int \<Rightarrow> int" where
  "c_mod a b = a - c_div a b * b"

text \<open>\<open>s32\<close> is the value a 32-bit \<open>int\<close> holds after a computation whose exact
  result is \<open>x\<close>. An \<open>int\<close> operand of a \<open>uint64_t\<close> addition is converted modulo \<open>2^64\<close>; a
  \<open>uint64_t\<close> argument passed for an \<open>int\<close> parameter keeps its low 32 bits, read as
  two's complement.\<close>

definition s32 :: "int \<Rightarrow> int" where
  "s32 x = sint (word_of_int x :: 32 word)"

definition to_u64 :: "int \<Rightarrow> 64 word" where
  "to_u64 x = word_of_int x"

definition to_int :: "64 word \<Rightarrow> int" where
  "to_int w = sint (ucast w :: 32 word)"

subsection \<open>The clock\<close>

definition gettimeofday :: "(nat \<Rightarrow> timeval) \<Rightarrow> powerdown \<Rightarrow> timeval \<times> powerdown" where
  "gettimeofday clk s = (clk (ticks s), s\<lparr>ticks := Suc (ticks s)\<rparr>)"

text \<open>Lines 39 to 44. The sum is formed in \<open>time_t\<close>, whose width the sources do not
  fix, and is taken exactly before its conversion to \<open>uint64_t\<close>.\<close>

definition ms_of :: "timeval \<Rightarrow> 64 word" where
  "ms_of tv = to_u64 (tv_sec tv * 1000 + c_div (tv_usec tv) 1000)"

definition getCurrentTimeMs :: "(nat \<Rightarrow> timeval) \<Rightarrow> powerdown \<Rightarrow> 64 word \<times> powerdown" where
  "getCurrentTimeMs clk s = (case gettimeofday clk s of (tv, s') \<Rightarrow> (ms_of tv, s'))"

subsection \<open>The registry\<close>

definition newItem :: "int \<Rightarrow> PowerItem" where
  "newItem r = \<lparr>ref = r, state = 0, sleepUntil = \<lparr>tv_sec = 0, tv_usec = 0\<rparr>\<rparr>"

fun lookupItem :: "int \<Rightarrow> PowerItem list \<Rightarrow> nat option" where
  "lookupItem r [] = None"
| "lookupItem r (i # is) =
     (if ref i = r then Some 0 else map_option Suc (lookupItem r is))"

text \<open>\<open>findItem\<close> returns a pointer into the list, here the position of the item, and
  the list, which has a zeroed item for \<open>r\<close> in front when \<open>r\<close> was not found.\<close>

definition findItem :: "int \<Rightarrow> PowerItem list \<Rightarrow> nat \<times> PowerItem list" where
  "findItem r is =
     (case lookupItem r is of
        Some k \<Rightarrow> (k, is)
      | None \<Rightarrow> (0, newItem r # is))"

definition doSleep :: "int \<Rightarrow> nat \<Rightarrow> powerdown \<Rightarrow> powerdown" where
  "doSleep sleepMs nextMode s =
     (if pdCb s then s\<lparr>cbCalls := cbCalls s @ [(sleepMs, nextMode)]\<rparr> else s)"

subsection \<open>checkCanSleep\<close>

text \<open>Lines 87 and 88. \<open>msdiff\<close> is the exact value of the expression, \<open>mssleep_of\<close>
  what the \<open>int mssleep\<close> holds.\<close>

definition msdiff :: "timeval \<Rightarrow> timeval \<Rightarrow> int" where
  "msdiff until now =
     (tv_sec until - tv_sec now) * 1000 + c_div (tv_usec until - tv_usec now) 1000"

definition mssleep_of :: "timeval \<Rightarrow> timeval \<Rightarrow> int" where
  "mssleep_of until now = s32 (msdiff until now)"

text \<open>The body of the \<open>while\<close> loop over the items, for one item: the item as it is
  left, and the new values of \<open>canSleepForMs\<close> and \<open>cannotSleep\<close>.\<close>

definition checkItem :: "timeval \<Rightarrow> PowerItem \<Rightarrow> int \<Rightarrow> bool \<Rightarrow> PowerItem \<times> int \<times> bool" where
  "checkItem now i canSleepForMs cannotSleep =
     (let mssleep = mssleep_of (sleepUntil i) now in
      if state i = ST_ACTIVE then
        (if mssleep > 0 then (i, canSleepForMs, True)
         else (i\<lparr>state := ST_CANSLEEP\<rparr>, canSleepForMs, cannotSleep))
      else if state i = ST_CANSLEEP_UNTIL then
        (if mssleep < 2000 then (i\<lparr>state := ST_ACTIVE\<rparr>, canSleepForMs, True)
         else (i, (if canSleepForMs = - 1 \<or> mssleep < canSleepForMs then mssleep
                   else canSleepForMs), cannotSleep))
      else (i, canSleepForMs, cannotSleep))"

fun scanItems ::
  "(nat \<Rightarrow> timeval) \<Rightarrow> nat \<Rightarrow> PowerItem list \<Rightarrow> int \<Rightarrow> bool \<Rightarrow> PowerItem list \<times> int \<times> bool" where
  "scanItems clk t [] c b = ([], c, b)"
| "scanItems clk t (i # is) c b =
     (case checkItem (clk t) i c b of
        (i', c', b') \<Rightarrow>
          (case scanItems clk (Suc t) is c' b' of
             (is', c'', b'') \<Rightarrow> (i' # is', c'', b'')))"

text \<open>Lines 80 to 116: the scan of the registry, from \<open>canSleepForMs = -1\<close> and
  \<open>cannotSleep = 0\<close>, with one clock read per item.\<close>

definition scanPhase :: "(nat \<Rightarrow> timeval) \<Rightarrow> powerdown \<Rightarrow> powerdown \<times> int \<times> bool" where
  "scanPhase clk s =
     (case scanItems clk (ticks s) (powerItems s) (- 1) False of
        (is', c, b) \<Rightarrow>
          (s\<lparr>powerItems := is', ticks := ticks s + length (powerItems s)\<rparr>, c, b))"

text \<open>Lines 119 to 125: the modes above the current one, in ascending order. The
  clock is read only for a nonzero entry (\<open>&&\<close> evaluates its right operand only
  then), and the loop goes on after a dispatch.\<close>

fun wakeScan :: "(nat \<Rightarrow> timeval) \<Rightarrow> nat list \<Rightarrow> powerdown \<Rightarrow> bool \<Rightarrow> powerdown \<times> bool" where
  "wakeScan clk [] s cannotSleep = (s, cannotSleep)"
| "wakeScan clk (i # is) s cannotSleep =
     (if savedWakeTimestamp s ! i \<noteq> 0 then
        (case getCurrentTimeMs clk s of
           (now, s') \<Rightarrow>
             if savedWakeTimestamp s' ! i < now
             then wakeScan clk is (doSleep 0 i s') True
             else wakeScan clk is s' cannotSleep)
      else wakeScan clk is s cannotSleep)"

definition wakePhase :: "(nat \<Rightarrow> timeval) \<Rightarrow> powerdown \<Rightarrow> bool \<Rightarrow> powerdown \<times> bool" where
  "wakePhase clk s cannotSleep =
     wakeScan clk [Suc (powerMode s) ..< NO_POWER_MODES s] s cannotSleep"

text \<open>Lines 131 to 136: the scan for the nearest mode.\<close>

fun nearestScan :: "64 word list \<Rightarrow> nat list \<Rightarrow> nat \<Rightarrow> nat" where
  "nearestScan tbl [] nearestMode = nearestMode"
| "nearestScan tbl (i # is) nearestMode =
     nearestScan tbl is
       (if tbl ! i \<noteq> 0 \<and> tbl ! i < tbl ! nearestMode then i else nearestMode)"

text \<open>Lines 129 to 143: the branch taken when \<open>cannotSleep\<close> is 0.\<close>

definition sleepPhase :: "(nat \<Rightarrow> timeval) \<Rightarrow> int \<Rightarrow> powerdown \<Rightarrow> powerdown" where
  "sleepPhase clk canSleepForMs s =
     (case getCurrentTimeMs clk s of
        (now, s1) \<Rightarrow>
          let s2 = s1\<lparr>savedWakeTimestamp :=
                        (savedWakeTimestamp s1)[powerMode s1 := now + to_u64 canSleepForMs]\<rparr>;
              nearestMode = nearestScan (savedWakeTimestamp s2) [0 ..< NO_POWER_MODES s2] 0
          in if nearestMode = powerMode s2 then doSleep canSleepForMs nearestMode s2
             else (case getCurrentTimeMs clk s2 of
                     (now', s3) \<Rightarrow>
                       doSleep (to_int (savedWakeTimestamp s3 ! nearestMode - now'))
                         nearestMode s3))"

definition xTimerReset :: "powerdown \<Rightarrow> powerdown" where
  "xTimerReset s = s\<lparr>tmrResets := Suc (tmrResets s)\<rparr>"

definition checkCanSleep :: "(nat \<Rightarrow> timeval) \<Rightarrow> powerdown \<Rightarrow> powerdown" where
  "checkCanSleep clk s =
     (case scanPhase clk s of
        (s1, canSleepForMs, cannotSleep1) \<Rightarrow>
          (case wakePhase clk s1 cannotSleep1 of
             (s2, cannotSleep) \<Rightarrow>
               xTimerReset (if \<not> cannotSleep then sleepPhase clk canSleepForMs s2 else s2)))"

subsection \<open>The owner-facing operations\<close>

text \<open>\<open>sleepUntil\<close> becomes the instant read plus the delay, with one carry of the
  microseconds when they exceed 1000000.\<close>

definition addMs :: "timeval \<Rightarrow> int \<Rightarrow> timeval" where
  "addMs now delayMs =
     (let sec = tv_sec now + c_div delayMs 1000;
          usec = tv_usec now + c_mod delayMs 1000 * 1000
      in if usec > 1000000 then \<lparr>tv_sec = sec + 1, tv_usec = usec - 1000000\<rparr>
         else \<lparr>tv_sec = sec, tv_usec = usec\<rparr>)"

definition powerHold :: "(nat \<Rightarrow> timeval) \<Rightarrow> int \<Rightarrow> int \<Rightarrow> powerdown \<Rightarrow> powerdown" where
  "powerHold clk r holdTimeMs s =
     (case findItem r (powerItems s) of
        (p, is) \<Rightarrow>
          (case gettimeofday clk s of
             (now, s1) \<Rightarrow>
               s1\<lparr>powerItems :=
                    is[p := (is ! p)\<lparr>sleepUntil := addMs now holdTimeMs, state := ST_ACTIVE\<rparr>]\<rparr>))"

definition powerCanSleepFor :: "(nat \<Rightarrow> timeval) \<Rightarrow> int \<Rightarrow> int \<Rightarrow> powerdown \<Rightarrow> powerdown" where
  "powerCanSleepFor clk r delayMs s =
     (case findItem r (powerItems s) of
        (p, is) \<Rightarrow>
          (case gettimeofday clk s of
             (now, s1) \<Rightarrow>
               checkCanSleep clk
                 (s1\<lparr>powerItems :=
                      is[p := (is ! p)\<lparr>sleepUntil := addMs now delayMs,
                                       state := ST_CANSLEEP_UNTIL\<rparr>]\<rparr>)))"

definition powerCanSleep :: "(nat \<Rightarrow> timeval) \<Rightarrow> int \<Rightarrow> powerdown \<Rightarrow> powerdown" where
  "powerCanSleep clk r s =
     (case findItem r (powerItems s) of
        (p, is) \<Rightarrow>
          checkCanSleep clk (s\<lparr>powerItems := is[p := (is ! p)\<lparr>state := ST_CANSLEEP\<rparr>]\<rparr>))"

definition pwrdwnmgrTimer :: "(nat \<Rightarrow> timeval) \<Rightarrow> powerdown \<Rightarrow> powerdown" where
  "pwrdwnmgrTimer clk s = checkCanSleep clk s"

subsection \<open>What a pass does, as observed from outside\<close>

text \<open>\<open>passBlocked\<close> is the value of \<open>cannotSleep\<close> when line 128 tests it: the
  sleep-authorizing branch is taken exactly when it is false. \<open>passCalls\<close> are the
  callback invocations made during the pass. \<open>remaining\<close> is \<open>mssleep\<close> as the pass
  computes it for the item at position \<open>k\<close>, at the instant read for that item.
  \<open>us_of\<close> is an instant in microseconds, and \<open>ahead\<close> is how far the deadline of
  the item at position \<open>k\<close> lies after the instant read for it, in microseconds.\<close>

definition passBlocked :: "(nat \<Rightarrow> timeval) \<Rightarrow> powerdown \<Rightarrow> bool" where
  "passBlocked clk s =
     (case scanPhase clk s of (s1, c, b1) \<Rightarrow> snd (wakePhase clk s1 b1))"

definition passCalls :: "(nat \<Rightarrow> timeval) \<Rightarrow> powerdown \<Rightarrow> (int \<times> nat) list" where
  "passCalls clk s = drop (length (cbCalls s)) (cbCalls (checkCanSleep clk s))"

definition remaining :: "(nat \<Rightarrow> timeval) \<Rightarrow> powerdown \<Rightarrow> nat \<Rightarrow> int" where
  "remaining clk s k = mssleep_of (sleepUntil (powerItems s ! k)) (clk (ticks s + k))"

definition us_of :: "timeval \<Rightarrow> int" where
  "us_of tv = tv_sec tv * 1000000 + tv_usec tv"

definition ahead :: "(nat \<Rightarrow> timeval) \<Rightarrow> powerdown \<Rightarrow> nat \<Rightarrow> int" where
  "ahead clk s k = us_of (sleepUntil (powerItems s ! k)) - us_of (clk (ticks s + k))"

subsection \<open>Concrete inputs\<close>

definition mkTime :: "int \<Rightarrow> int \<Rightarrow> timeval" where
  "mkTime sec usec = \<lparr>tv_sec = sec, tv_usec = usec\<rparr>"

definition mkItem :: "int \<Rightarrow> int \<Rightarrow> timeval \<Rightarrow> PowerItem" where
  "mkItem r st until = \<lparr>ref = r, state = st, sleepUntil = until\<rparr>"

definition mkState :: "PowerItem list \<Rightarrow> 64 word list \<Rightarrow> nat \<Rightarrow> powerdown" where
  "mkState is tbl m =
     \<lparr>powerItems = is, savedWakeTimestamp = tbl, powerMode = m, pdCb = True,
      cbCalls = [], ticks = 0, tmrResets = 0\<rparr>"


definition clkAt :: "timeval \<Rightarrow> nat \<Rightarrow> timeval" where
  "clkAt tv t = tv"

definition clk100 :: "nat \<Rightarrow> timeval" where
  "clk100 t = mkTime 100 0"

definition clk102 :: "nat \<Rightarrow> timeval" where
  "clk102 t = mkTime 102 0"

subsection \<open>Sequences of calls\<close>

text \<open>The four entry points that take the mutex, as one type of calls, and their
  execution one after the other. A call \<open>rearms\<close> the owner \<open>r\<close> when it is a hold or a
  timed permission of \<open>r\<close>. An owner is \<open>released\<close> when its item exists and is in
  state \<open>ST_CANSLEEP\<close>.\<close>

datatype call = Hold int int | CanSleepFor int int | CanSleep int | Timer

fun perform :: "(nat \<Rightarrow> timeval) \<Rightarrow> call \<Rightarrow> powerdown \<Rightarrow> powerdown" where
  "perform clk (Hold r ms) s = powerHold clk r ms s"
| "perform clk (CanSleepFor r ms) s = powerCanSleepFor clk r ms s"
| "perform clk (CanSleep r) s = powerCanSleep clk r s"
| "perform clk Timer s = pwrdwnmgrTimer clk s"

fun performAll :: "(nat \<Rightarrow> timeval) \<Rightarrow> call list \<Rightarrow> powerdown \<Rightarrow> powerdown" where
  "performAll clk [] s = s"
| "performAll clk (c # cs) s = performAll clk cs (perform clk c s)"

fun rearms :: "int \<Rightarrow> call \<Rightarrow> bool" where
  "rearms r (Hold r' ms) = (r' = r)"
| "rearms r (CanSleepFor r' ms) = (r' = r)"
| "rearms r (CanSleep r') = False"
| "rearms r Timer = False"

definition released :: "int \<Rightarrow> PowerItem list \<Rightarrow> bool" where
  "released r is =
     (case lookupItem r is of None \<Rightarrow> False | Some k \<Rightarrow> state (is ! k) = ST_CANSLEEP)"

subsection \<open>Conditions on a pass\<close>








definition dueMode :: "timeval \<Rightarrow> powerdown \<Rightarrow> nat \<Rightarrow> bool" where
  "dueMode now s j = (savedWakeTimestamp s ! j \<noteq> 0 \<and> savedWakeTimestamp s ! j < ms_of now)"

definition dueModes :: "timeval \<Rightarrow> powerdown \<Rightarrow> nat list" where
  "dueModes now s = filter (dueMode now s) [Suc (powerMode s) ..< NO_POWER_MODES s]"

definition passSleepMs :: "(nat \<Rightarrow> timeval) \<Rightarrow> powerdown \<Rightarrow> int" where
  "passSleepMs clk s = fst (snd (scanPhase clk s))"


definition beforeSleep :: "(nat \<Rightarrow> timeval) \<Rightarrow> powerdown \<Rightarrow> powerdown" where
  "beforeSleep clk s =
     fst (wakePhase clk (fst (scanPhase clk s)) (snd (snd (scanPhase clk s))))"


section \<open>Properties\<close>

subsection \<open>Arithmetic of the remaining time\<close>

lemma c_div_pos: "0 < b \<Longrightarrow> c_div a b = (if 0 \<le> a then a div b else - ((- a) div b))"
  by (auto simp: c_div_def sgn_if)

lemma c_div_1000_bounds:
  "c_div a 1000 * 1000 \<le> a + 999" "a - 999 \<le> c_div a 1000 * 1000"
  by (simp_all add: c_div_pos) arith+

lemma s32_id: "- 2147483648 \<le> x \<Longrightarrow> x \<le> 2147483647 \<Longrightarrow> s32 x = x"
  by (simp add: s32_def sint_sbintrunc' signed_take_bit_int_eq_self)

lemma msdiff_us:
  "msdiff d now * 1000 \<le> us_of d - us_of now + 999"
  "us_of d - us_of now - 999 \<le> msdiff d now * 1000"
  using c_div_1000_bounds[of "tv_usec d - tv_usec now"]
  by (simp_all add: msdiff_def us_of_def algebra_simps)

text \<open>Within 32 bits, that is for a deadline at most 2147483647 ms after and at most
  2147483648 ms before the instant read, \<open>mssleep\<close> is the exact difference.\<close>

lemma mssleep_exact:
  assumes "- 2147483648000 \<le> us_of d - us_of now" and "us_of d - us_of now \<le> 2147483647000"
  shows "mssleep_of d now = msdiff d now"
proof -
  have "- 2147483648 \<le> msdiff d now"
    using msdiff_us(2)[of d now] assms(1) by arith
  moreover have "msdiff d now \<le> 2147483647"
    using msdiff_us(1)[of d now] assms(2) by arith
  ultimately show ?thesis
    by (simp add: mssleep_of_def s32_id)
qed

lemma mssleep_expired:
  assumes "us_of d \<le> us_of now" and "us_of now - us_of d \<le> 2147483648000"
  shows "mssleep_of d now \<le> 0"
proof -
  have "mssleep_of d now = msdiff d now"
    using assms by (intro mssleep_exact) simp_all
  then show ?thesis
    using msdiff_us(1)[of d now] assms(1) by arith
qed

lemma mssleep_future:
  assumes "1000 \<le> us_of d - us_of now" and "us_of d - us_of now \<le> 2147483647000"
  shows "0 < mssleep_of d now"
proof -
  have "mssleep_of d now = msdiff d now"
    using assms by (intro mssleep_exact) simp_all
  then show ?thesis
    using msdiff_us(2)[of d now] assms(1) by arith
qed

lemma mssleep_short:
  assumes "- 2147483648000 \<le> us_of d - us_of now" and "us_of d - us_of now \<le> 1999000"
  shows "mssleep_of d now < 2000"
proof -
  have "mssleep_of d now = msdiff d now"
    using assms by (intro mssleep_exact) simp_all
  then show ?thesis
    using msdiff_us(1)[of d now] assms(2) by arith
qed

lemma scanItems_length: "length (fst (scanItems clk t is c b)) = length is"
  by (induction "is" arbitrary: t c b) (simp_all add: case_prod_beta)

lemma checkItem_flag_mono: "b \<Longrightarrow> snd (snd (checkItem now i c b))"
  by (simp add: checkItem_def Let_def)

lemma scanItems_flag_mono: "b \<Longrightarrow> snd (snd (scanItems clk t is c b))"
proof (induction "is" arbitrary: t c b)
  case Nil
  then show ?case by simp
next
  case (Cons i "is")
  from Cons.prems have "snd (snd (checkItem (clk t) i c b))" by (rule checkItem_flag_mono)
  then show ?case using Cons.IH by (simp add: case_prod_beta)
qed

lemma checkItem_ref: "ref (fst (checkItem now i c b)) = ref i"
  "sleepUntil (fst (checkItem now i c b)) = sleepUntil i"
  by (simp_all add: checkItem_def Let_def)

lemma scanItems_nth:
  "k < length is \<Longrightarrow>
   fst (scanItems clk t is c b) ! k =
     fst (checkItem (clk (t + k)) (is ! k)
            (fst (snd (scanItems clk t (take k is) c b)))
            (snd (snd (scanItems clk t (take k is) c b))))"
proof (induction "is" arbitrary: t c b k)
  case Nil
  then show ?case by simp
next
  case (Cons i "is")
  show ?case
  proof (cases k)
    case 0
    then show ?thesis by (simp add: case_prod_beta)
  next
    case (Suc k')
    with Cons.prems have "k' < length is" by simp
    from Cons.IH[OF this] show ?thesis using Suc by (simp add: case_prod_beta)
  qed
qed

lemma scanItems_flag_at:
  "k < length is \<Longrightarrow> (\<And>c' b'. snd (snd (checkItem (clk (t + k)) (is ! k) c' b'))) \<Longrightarrow>
   snd (snd (scanItems clk t is c b))"
proof (induction "is" arbitrary: t c b k)
  case Nil
  then show ?case by simp
next
  case (Cons i "is")
  show ?case
  proof (cases k)
    case 0
    with Cons.prems(2)[of c b] have "snd (snd (checkItem (clk t) i c b))" by simp
    then show ?thesis by (simp add: case_prod_beta scanItems_flag_mono)
  next
    case (Suc k')
    with Cons.prems have "k' < length is" by simp
    moreover have "\<And>c' b'. snd (snd (checkItem (clk (Suc t + k')) (is ! k') c' b'))"
      using Cons.prems(2) Suc by simp
    ultimately have "snd (snd (scanItems clk (Suc t) is c' b'))" for c' b'
      by (rule Cons.IH)
    then show ?thesis by (simp add: case_prod_beta)
  qed
qed

lemma checkItem_active_blocks:
  "state i = ST_ACTIVE \<Longrightarrow> 0 < mssleep_of (sleepUntil i) now \<Longrightarrow>
   checkItem now i c b = (i, c, True)"
  by (simp add: checkItem_def)

lemma checkItem_short_window:
  "state i = ST_CANSLEEP_UNTIL \<Longrightarrow> mssleep_of (sleepUntil i) now < 2000 \<Longrightarrow>
   checkItem now i c b = (i\<lparr>state := ST_ACTIVE\<rparr>, c, True)"
  by (simp add: checkItem_def)

lemma checkItem_expired:
  "state i = ST_ACTIVE \<Longrightarrow> mssleep_of (sleepUntil i) now \<le> 0 \<Longrightarrow>
   checkItem now i c b = (i\<lparr>state := ST_CANSLEEP\<rparr>, c, b)"
  by (simp add: checkItem_def)

lemma checkItem_cansleep:
  "state i = ST_CANSLEEP \<Longrightarrow> checkItem now i c b = (i, c, b)"
  by (simp add: checkItem_def)


lemma getCurrentTimeMs_eq:
  "getCurrentTimeMs clk s = (ms_of (clk (ticks s)), s\<lparr>ticks := Suc (ticks s)\<rparr>)"
  by (simp add: getCurrentTimeMs_def gettimeofday_def)

lemma doSleep_frame:
  "savedWakeTimestamp (doSleep d m s) = savedWakeTimestamp s"
  "powerItems (doSleep d m s) = powerItems s"
  "powerMode (doSleep d m s) = powerMode s"
  "pdCb (doSleep d m s) = pdCb s"
  "ticks (doSleep d m s) = ticks s"
  "tmrResets (doSleep d m s) = tmrResets s"
  by (simp_all add: doSleep_def)

lemma doSleep_calls:
  "cbCalls (doSleep d m s) = cbCalls s @ (if pdCb s then [(d, m)] else [])"
  by (simp add: doSleep_def)

lemma wakeScan_frame:
  "savedWakeTimestamp (fst (wakeScan clk js s b)) = savedWakeTimestamp s \<and>
   powerItems (fst (wakeScan clk js s b)) = powerItems s \<and>
   powerMode (fst (wakeScan clk js s b)) = powerMode s \<and>
   pdCb (fst (wakeScan clk js s b)) = pdCb s \<and>
   tmrResets (fst (wakeScan clk js s b)) = tmrResets s"
  by (induction js arbitrary: s b) (simp_all add: getCurrentTimeMs_eq doSleep_frame)

lemma wakeScan_flag_mono: "b \<Longrightarrow> snd (wakeScan clk js s b)"
  by (induction js arbitrary: s) (simp_all add: getCurrentTimeMs_eq)

lemma wakeScan_calls:
  "\<exists>new. cbCalls (fst (wakeScan clk js s b)) = cbCalls s @ new \<and>
         (\<forall>x \<in> set new. fst x = 0 \<and> snd x \<in> set js) \<and> length new \<le> length js"
proof (induction js arbitrary: s b)
  case Nil
  then show ?case by simp
next
  case (Cons j js)
  let ?s1 = "s\<lparr>ticks := Suc (ticks s)\<rparr>"
  show ?case
  proof (cases "savedWakeTimestamp s ! j \<noteq> 0 \<and> savedWakeTimestamp s ! j < ms_of (clk (ticks s))")
    case True
    from Cons.IH[of "doSleep 0 j ?s1" True] obtain new where
      new: "cbCalls (fst (wakeScan clk js (doSleep 0 j ?s1) True)) = cbCalls (doSleep 0 j ?s1) @ new"
        "\<forall>x \<in> set new. fst x = 0 \<and> snd x \<in> set js" "length new \<le> length js"
      by blast
    let ?new = "(if pdCb s then [(0, j)] else []) @ new"
    have "cbCalls (fst (wakeScan clk (j # js) s b)) = cbCalls s @ ?new"
      using True new(1) by (simp add: getCurrentTimeMs_eq doSleep_calls)
    moreover have "\<forall>x \<in> set ?new. fst x = 0 \<and> snd x \<in> set (j # js)"
      using new(2) by auto
    moreover have "length ?new \<le> length (j # js)"
      using new(3) by simp
    ultimately show ?thesis by blast
  next
    case False
    have "\<exists>s'. wakeScan clk (j # js) s b = wakeScan clk js s' b \<and> cbCalls s' = cbCalls s"
      using False by (auto simp: getCurrentTimeMs_eq)
    then obtain s' where s': "wakeScan clk (j # js) s b = wakeScan clk js s' b" "cbCalls s' = cbCalls s"
      by blast
    from Cons.IH[of s' b] obtain new where
      "cbCalls (fst (wakeScan clk js s' b)) = cbCalls s' @ new"
      "\<forall>x \<in> set new. fst x = 0 \<and> snd x \<in> set js" "length new \<le> length js"
      by blast
    then have "cbCalls (fst (wakeScan clk (j # js) s b)) = cbCalls s @ new \<and>
         (\<forall>x \<in> set new. fst x = 0 \<and> snd x \<in> set (j # js)) \<and> length new \<le> length (j # js)"
      using s' by simp
    then show ?thesis by blast
  qed
qed

lemma scanPhase_frame:
  "savedWakeTimestamp (fst (scanPhase clk s)) = savedWakeTimestamp s"
  "powerMode (fst (scanPhase clk s)) = powerMode s"
  "pdCb (fst (scanPhase clk s)) = pdCb s"
  "cbCalls (fst (scanPhase clk s)) = cbCalls s"
  "tmrResets (fst (scanPhase clk s)) = tmrResets s"
  "ticks (fst (scanPhase clk s)) = ticks s + length (powerItems s)"
  "powerItems (fst (scanPhase clk s)) = fst (scanItems clk (ticks s) (powerItems s) (- 1) False)"
  by (simp_all add: scanPhase_def case_prod_beta)

lemma scanPhase_flag:
  "snd (snd (scanPhase clk s)) = snd (snd (scanItems clk (ticks s) (powerItems s) (- 1) False))"
  "fst (snd (scanPhase clk s)) = fst (snd (scanItems clk (ticks s) (powerItems s) (- 1) False))"
  by (simp_all add: scanPhase_def case_prod_beta)

lemma NO_POWER_MODES_scanPhase: "NO_POWER_MODES (fst (scanPhase clk s)) = NO_POWER_MODES s"
  by (simp add: NO_POWER_MODES_def scanPhase_frame)

lemma checkCanSleep_blocked:
  "passBlocked clk s \<Longrightarrow>
   checkCanSleep clk s =
     xTimerReset (fst (wakePhase clk (fst (scanPhase clk s)) (snd (snd (scanPhase clk s)))))"
  by (simp add: checkCanSleep_def passBlocked_def case_prod_beta)

lemma checkCanSleep_free:
  "\<not> passBlocked clk s \<Longrightarrow>
   checkCanSleep clk s =
     xTimerReset (sleepPhase clk (fst (snd (scanPhase clk s)))
        (fst (wakePhase clk (fst (scanPhase clk s)) (snd (snd (scanPhase clk s))))))"
  by (simp add: checkCanSleep_def passBlocked_def case_prod_beta)

lemma xTimerReset_frame:
  "savedWakeTimestamp (xTimerReset s) = savedWakeTimestamp s"
  "powerItems (xTimerReset s) = powerItems s"
  "powerMode (xTimerReset s) = powerMode s"
  "pdCb (xTimerReset s) = pdCb s"
  "cbCalls (xTimerReset s) = cbCalls s"
  "ticks (xTimerReset s) = ticks s"
  by (simp_all add: xTimerReset_def)

lemma sleepPhase_items: "powerItems (sleepPhase clk c s) = powerItems s"
  by (simp add: sleepPhase_def getCurrentTimeMs_eq Let_def doSleep_frame)

lemma checkCanSleep_items:
  "powerItems (checkCanSleep clk s) = fst (scanItems clk (ticks s) (powerItems s) (- 1) False)"
  by (simp add: checkCanSleep_def case_prod_beta xTimerReset_frame sleepPhase_items
      wakePhase_def wakeScan_frame scanPhase_frame)

lemma blocked_calls:
  assumes "passBlocked clk s"
  shows "\<forall>x \<in> set (passCalls clk s). fst x = 0 \<and> powerMode s < snd x \<and> snd x < NO_POWER_MODES s"
proof -
  let ?s1 = "fst (scanPhase clk s)"
  let ?b1 = "snd (snd (scanPhase clk s))"
  obtain new where new:
    "cbCalls (fst (wakePhase clk ?s1 ?b1)) = cbCalls ?s1 @ new"
    "\<forall>x \<in> set new. fst x = 0 \<and> snd x \<in> set [Suc (powerMode ?s1) ..< NO_POWER_MODES ?s1]"
    unfolding wakePhase_def using wakeScan_calls by blast
  have "passCalls clk s = new"
    using new(1) assms by (simp add: passCalls_def checkCanSleep_blocked xTimerReset_frame scanPhase_frame)
  then show ?thesis
    using new(2) by (auto simp: scanPhase_frame NO_POWER_MODES_scanPhase)
qed

lemma blocked_table:
  "passBlocked clk s \<Longrightarrow> savedWakeTimestamp (checkCanSleep clk s) = savedWakeTimestamp s"
  by (simp add: checkCanSleep_blocked xTimerReset_frame wakePhase_def wakeScan_frame scanPhase_frame)

lemma item_blocks_pass:
  assumes "k < length (powerItems s)"
    and "\<And>c b. snd (snd (checkItem (clk (ticks s + k)) (powerItems s ! k) c b))"
  shows "passBlocked clk s"
proof -
  have "snd (snd (scanItems clk (ticks s) (powerItems s) (- 1) False))"
    using assms by (rule scanItems_flag_at)
  then show ?thesis
    by (simp add: passBlocked_def case_prod_beta scanPhase_flag wakePhase_def wakeScan_flag_mono)
qed

subsection \<open>Holds and short windows block the pass\<close>

text \<open>Claim C1, as amended. If, at the instant a pass reads for it, an item is in
  state \<open>ST_ACTIVE\<close> and its deadline lies at least 1 ms and at most 2147483647 ms
  ahead, the pass does not authorize sleep: \<open>cannotSleep\<close> is set when line 128 tests
  it, the table of wake timestamps is left as it was, and every callback invocation
  of the pass is a dispatch of lines 119 to 125, with duration 0 and a mode above the
  current one.\<close>

theorem active_hold_blocks_sleep:
  assumes "k < length (powerItems s)"
    and "state (powerItems s ! k) = ST_ACTIVE"
    and "1000 \<le> ahead clk s k"
    and "ahead clk s k \<le> 2147483647000"
  shows "passBlocked clk s \<and>
         savedWakeTimestamp (checkCanSleep clk s) = savedWakeTimestamp s \<and>
         (\<forall>x \<in> set (passCalls clk s). fst x = 0 \<and> powerMode s < snd x)"
proof -
  have "0 < remaining clk s k"
    using assms(3,4) unfolding remaining_def ahead_def by (rule mssleep_future)
  have "passBlocked clk s"
  proof (rule item_blocks_pass[OF assms(1)])
    fix c b
    show "snd (snd (checkItem (clk (ticks s + k)) (powerItems s ! k) c b))"
      using assms(2) \<open>0 < remaining clk s k\<close>
      by (simp add: checkItem_active_blocks remaining_def)
  qed
  then show ?thesis
    using blocked_table blocked_calls by blast
qed

theorem active_hold_blocks_sleep_witness:
  "state (powerItems (mkState [mkItem 1 ST_ACTIVE (mkTime 101 0)] [0, 7] 0) ! 0) = ST_ACTIVE \<and>
   ahead clk100 (mkState [mkItem 1 ST_ACTIVE (mkTime 101 0)] [0, 7] 0) 0 = 1000000 \<and>
   passBlocked clk100 (mkState [mkItem 1 ST_ACTIVE (mkTime 101 0)] [0, 7] 0) \<and>
   savedWakeTimestamp (checkCanSleep clk100 (mkState [mkItem 1 ST_ACTIVE (mkTime 101 0)] [0, 7] 0))
     = [0, 7]"
proof -
  let ?s = "mkState [mkItem 1 ST_ACTIVE (mkTime 101 0)] [0, 7] 0"
  have h1: "0 < length (powerItems ?s)"
    by (simp add: mkState_def)
  have h2: "state (powerItems ?s ! 0) = ST_ACTIVE"
    by (simp add: mkState_def mkItem_def)
  have a: "ahead clk100 ?s 0 = 1000000"
    by (simp add: ahead_def us_of_def mkState_def mkItem_def mkTime_def clk100_def)
  then have h3: "1000 \<le> ahead clk100 ?s 0" and h4: "ahead clk100 ?s 0 \<le> 2147483647000"
    by simp_all
  from active_hold_blocks_sleep[OF h1 h2 h3 h4] h2 a show ?thesis
    by (simp add: mkState_def)
qed

text \<open>As the claim words it, for every deadline strictly in the future, it fails: an
  active hold that ends 999 microseconds after the instant read has 0 ms left by
  lines 87 and 88, is demoted, and the pass authorizes sleep.\<close>

theorem active_hold_counterexample:
  "state (powerItems (mkState [mkItem 1 ST_ACTIVE (mkTime 100 999)] [0, 0] 0) ! 0) = ST_ACTIVE \<and>
   us_of (clk100 0) < us_of (sleepUntil (powerItems (mkState [mkItem 1 ST_ACTIVE (mkTime 100 999)] [0, 0] 0) ! 0)) \<and>
   \<not> passBlocked clk100 (mkState [mkItem 1 ST_ACTIVE (mkTime 100 999)] [0, 0] 0) \<and>
   passCalls clk100 (mkState [mkItem 1 ST_ACTIVE (mkTime 100 999)] [0, 0] 0) = [(- 1, 0)] \<and>
   savedWakeTimestamp (checkCanSleep clk100 (mkState [mkItem 1 ST_ACTIVE (mkTime 100 999)] [0, 0] 0))
     = [99999, 0]"
  by code_simp

text \<open>Claim C2, as amended. An item in state \<open>ST_CANSLEEP_UNTIL\<close> whose deadline, at
  the instant the pass reads for it, lies at most 1999 ms ahead and at most
  2147483648 ms back is in state \<open>ST_ACTIVE\<close> after the pass, and the pass does not
  authorize sleep.\<close>

theorem short_window_promoted:
  assumes "k < length (powerItems s)"
    and "state (powerItems s ! k) = ST_CANSLEEP_UNTIL"
    and "- 2147483648000 \<le> ahead clk s k"
    and "ahead clk s k \<le> 1999000"
  shows "state (powerItems (checkCanSleep clk s) ! k) = ST_ACTIVE \<and>
         passBlocked clk s \<and>
         savedWakeTimestamp (checkCanSleep clk s) = savedWakeTimestamp s \<and>
         (\<forall>x \<in> set (passCalls clk s). fst x = 0 \<and> powerMode s < snd x)"
proof -
  have r: "remaining clk s k < 2000"
    using assms(3,4) unfolding remaining_def ahead_def by (rule mssleep_short)
  have "passBlocked clk s"
  proof (rule item_blocks_pass[OF assms(1)])
    fix c b
    show "snd (snd (checkItem (clk (ticks s + k)) (powerItems s ! k) c b))"
      using assms(2) r by (simp add: checkItem_short_window remaining_def)
  qed
  moreover have "state (powerItems (checkCanSleep clk s) ! k) = ST_ACTIVE"
    using assms(1,2) r
    by (simp add: checkCanSleep_items scanItems_nth checkItem_short_window remaining_def)
  ultimately show ?thesis
    using blocked_table blocked_calls by blast
qed

theorem short_window_promoted_witness:
  "state (powerItems (mkState [mkItem 1 ST_CANSLEEP_UNTIL (mkTime 101 500000)] [0, 0] 0) ! 0)
     = ST_CANSLEEP_UNTIL \<and>
   ahead clk100 (mkState [mkItem 1 ST_CANSLEEP_UNTIL (mkTime 101 500000)] [0, 0] 0) 0 = 1500000 \<and>
   state (powerItems
     (checkCanSleep clk100 (mkState [mkItem 1 ST_CANSLEEP_UNTIL (mkTime 101 500000)] [0, 0] 0)) ! 0)
     = ST_ACTIVE \<and>
   passBlocked clk100 (mkState [mkItem 1 ST_CANSLEEP_UNTIL (mkTime 101 500000)] [0, 0] 0)"
proof -
  let ?s = "mkState [mkItem 1 ST_CANSLEEP_UNTIL (mkTime 101 500000)] [0, 0] 0"
  have h1: "0 < length (powerItems ?s)"
    by (simp add: mkState_def)
  have h2: "state (powerItems ?s ! 0) = ST_CANSLEEP_UNTIL"
    by (simp add: mkState_def mkItem_def)
  have a: "ahead clk100 ?s 0 = 1500000"
    by (simp add: ahead_def us_of_def mkState_def mkItem_def mkTime_def clk100_def)
  then have h3: "- 2147483648000 \<le> ahead clk100 ?s 0" and h4: "ahead clk100 ?s 0 \<le> 1999000"
    by simp_all
  from short_window_promoted[OF h1 h2 h3 h4] h2 a show ?thesis
    by simp
qed

text \<open>As the claim words it, for every remaining time below 2000 ms, it fails: a
  window with 1999995 microseconds left has 2000 ms left by lines 87 and 88 (the
  difference of the seconds is 2 and that of the microseconds truncates to 0); the
  item stays \<open>ST_CANSLEEP_UNTIL\<close> and the pass authorizes sleep for 2000 ms.\<close>

theorem short_window_counterexample:
  "state (powerItems (mkState [mkItem 1 ST_CANSLEEP_UNTIL (mkTime 102 0)] [0, 0] 0) ! 0)
     = ST_CANSLEEP_UNTIL \<and>
   ahead (clkAt (mkTime 100 5)) (mkState [mkItem 1 ST_CANSLEEP_UNTIL (mkTime 102 0)] [0, 0] 0) 0
     = 1999995 \<and>
   state (powerItems (checkCanSleep (clkAt (mkTime 100 5))
     (mkState [mkItem 1 ST_CANSLEEP_UNTIL (mkTime 102 0)] [0, 0] 0)) ! 0) = ST_CANSLEEP_UNTIL \<and>
   \<not> passBlocked (clkAt (mkTime 100 5)) (mkState [mkItem 1 ST_CANSLEEP_UNTIL (mkTime 102 0)] [0, 0] 0) \<and>
   passCalls (clkAt (mkTime 100 5)) (mkState [mkItem 1 ST_CANSLEEP_UNTIL (mkTime 102 0)] [0, 0] 0)
     = [(2000, 0)]"
  by code_simp

subsection \<open>A promoted window expires like a hold\<close>

lemma scanItems_sleepUntil:
  "k < length is \<Longrightarrow> sleepUntil (fst (scanItems clk t is c b) ! k) = sleepUntil (is ! k)"
  "k < length is \<Longrightarrow> ref (fst (scanItems clk t is c b) ! k) = ref (is ! k)"
  by (simp_all add: scanItems_nth checkItem_ref)

lemma checkCanSleep_length: "length (powerItems (checkCanSleep clk s)) = length (powerItems s)"
  by (simp add: checkCanSleep_items scanItems_length)

text \<open>The pass that promotes a too short \<open>ST_CANSLEEP_UNTIL\<close> item to \<open>ST_ACTIVE\<close>
  leaves its \<open>sleepUntil\<close> as it was. A later pass (state \<open>u\<close>, clock \<open>clk'\<close>) that
  finds the item as the promotion left it and examines it at or after that instant,
  and at most 2147483648 ms after it, demotes it to \<open>ST_CANSLEEP\<close> without setting
  \<open>cannotSleep\<close>.\<close>

lemma promoted_window_expires:
  assumes "k < length (powerItems s)"
    and "state (powerItems s ! k) = ST_CANSLEEP_UNTIL"
    and "remaining clk s k < 2000"
    and "j < length (powerItems u)"
    and "powerItems u ! j = powerItems (checkCanSleep clk s) ! k"
    and "us_of (sleepUntil (powerItems s ! k)) \<le> us_of (clk' (ticks u + j))"
    and "us_of (clk' (ticks u + j)) - us_of (sleepUntil (powerItems s ! k)) \<le> 2147483648000"
  shows "state (powerItems (checkCanSleep clk s) ! k) = ST_ACTIVE \<and>
         sleepUntil (powerItems (checkCanSleep clk s) ! k) = sleepUntil (powerItems s ! k) \<and>
         checkItem (clk' (ticks u + j)) (powerItems u ! j) c b =
           ((powerItems u ! j)\<lparr>state := ST_CANSLEEP\<rparr>, c, b) \<and>
         state (powerItems (checkCanSleep clk' u) ! j) = ST_CANSLEEP"
proof -
  let ?i = "powerItems (checkCanSleep clk s) ! k"
  have st: "state ?i = ST_ACTIVE"
    using assms(1-3)
    by (simp add: checkCanSleep_items scanItems_nth checkItem_short_window remaining_def)
  have dl: "sleepUntil ?i = sleepUntil (powerItems s ! k)"
    using assms(1) by (simp add: checkCanSleep_items scanItems_sleepUntil)
  have "mssleep_of (sleepUntil (powerItems u ! j)) (clk' (ticks u + j)) \<le> 0"
    using assms(5,6,7) dl by (simp add: mssleep_expired)
  then have step: "checkItem (clk' (ticks u + j)) (powerItems u ! j) c' b' =
      ((powerItems u ! j)\<lparr>state := ST_CANSLEEP\<rparr>, c', b')" for c' b'
    using st assms(5) by (simp add: checkItem_expired)
  have "state (powerItems (checkCanSleep clk' u) ! j) = ST_CANSLEEP"
    using assms(4) by (simp add: checkCanSleep_items scanItems_nth step)
  with st dl step show ?thesis by simp
qed

text \<open>Claim C10 at a failing input. A window that ends at second 5 is promoted by a
  pass at second 4 (1000 ms left); its \<open>sleepUntil\<close> stays at second 5. The next pass
  runs at second 1700000000, long after the window's end: the difference of
  -1699999995000 ms does not fit the 32-bit \<open>mssleep\<close>, which holds 807054216. The
  item counts as an active hold, stays \<open>ST_ACTIVE\<close> and blocks the pass.\<close>

theorem promoted_hold_outlives_window:
  "powerItems (checkCanSleep (clkAt (mkTime 4 0))
       (mkState [mkItem 1 ST_CANSLEEP_UNTIL (mkTime 5 0)] [0, 0] 0))
     = [mkItem 1 ST_ACTIVE (mkTime 5 0)] \<and>
   mssleep_of (mkTime 5 0) (mkTime 1700000000 0) = 807054216 \<and>
   powerItems (checkCanSleep (clkAt (mkTime 1700000000 0)) (checkCanSleep (clkAt (mkTime 4 0))
       (mkState [mkItem 1 ST_CANSLEEP_UNTIL (mkTime 5 0)] [0, 0] 0)))
     = [mkItem 1 ST_ACTIVE (mkTime 5 0)] \<and>
   passBlocked (clkAt (mkTime 1700000000 0)) (checkCanSleep (clkAt (mkTime 4 0))
       (mkState [mkItem 1 ST_CANSLEEP_UNTIL (mkTime 5 0)] [0, 0] 0))"
  by code_simp

subsection \<open>Holding\<close>

lemma c_div_mult_1000: "c_div (m * 1000) 1000 = m"
proof -
  have "- (m * 1000) = (- m) * 1000" by simp
  then have "(- (m * 1000)) div 1000 = - m"
    by (metis nonzero_mult_div_cancel_right zero_neq_numeral)
  then show ?thesis by (simp add: c_div_pos)
qed

lemma us_of_addMs: "us_of (addMs now d) = us_of now + d * 1000"
  by (simp add: addMs_def Let_def us_of_def c_mod_def algebra_simps)

lemma msdiff_addMs: "msdiff (addMs now d) now = d"
proof -
  have "c_div (c_mod d 1000 * 1000) 1000 = c_mod d 1000"
    by (rule c_div_mult_1000)
  moreover have "c_div (c_mod d 1000 * 1000 - 1000000) 1000 = c_mod d 1000 - 1000"
    using c_div_mult_1000[of "c_mod d 1000 - 1000"] by (simp add: algebra_simps)
  ultimately show ?thesis
    by (simp add: addMs_def Let_def msdiff_def) (simp add: c_mod_def algebra_simps)
qed

lemma mssleep_addMs: "mssleep_of (addMs now d) now = s32 d"
  by (simp add: mssleep_of_def msdiff_addMs)

lemma lookupItem_Some:
  "lookupItem r is = Some k \<Longrightarrow> k < length is \<and> ref (is ! k) = r"
  by (induction "is" arbitrary: k) (auto split: if_splits)

lemma lookupItem_map_ref:
  "map ref is = map ref is' \<Longrightarrow> lookupItem r is = lookupItem r is'"
proof (induction "is" arbitrary: is')
  case Nil
  then show ?case by simp
next
  case (Cons i "is")
  then obtain i' js where "is' = i' # js" by (cases is') auto
  with Cons show ?case by auto
qed

lemma findItem_cases:
  "findItem r is = (p, is') \<Longrightarrow>
   lookupItem r is' = Some p \<and> p < length is' \<and> ref (is' ! p) = r \<and>
   filter (\<lambda>i. ref i \<noteq> r) is' = filter (\<lambda>i. ref i \<noteq> r) is"
  by (auto simp: findItem_def newItem_def split: option.splits dest: lookupItem_Some)

lemma filter_update_ref:
  "p < length is \<Longrightarrow> ref (is ! p) = r \<Longrightarrow> ref x = r \<Longrightarrow>
   filter (\<lambda>i. ref i \<noteq> r) (is[p := x]) = filter (\<lambda>i. ref i \<noteq> r) is"
proof (induction "is" arbitrary: p)
  case Nil
  then show ?case by simp
next
  case (Cons i "is")
  then show ?case by (cases p) auto
qed

text \<open>Claim C9. \<open>_powerHold\<close> leaves the first item of the owner (a new one in
  front when the owner was unknown) in state \<open>ST_ACTIVE\<close> with \<open>sleepUntil\<close> equal to
  the instant read plus the hold time, so that the expression of lines 87 and 88 at
  that instant is exactly the hold time, and \<open>mssleep\<close> its 32-bit value (\<open>s32\<close> leaves
  the value of an \<open>int\<close> as it is). The items of all other owners, the table of
  wake timestamps, the power mode and the callback are as before; no callback is
  invoked and the timer is not reset, which every pass does.\<close>

theorem hold_touches_only_owner:
  "\<exists>p. lookupItem r (powerItems (powerHold clk r holdTimeMs s)) = Some p \<and>
        state (powerItems (powerHold clk r holdTimeMs s) ! p) = ST_ACTIVE \<and>
        us_of (sleepUntil (powerItems (powerHold clk r holdTimeMs s) ! p)) =
          us_of (clk (ticks s)) + holdTimeMs * 1000 \<and>
        msdiff (sleepUntil (powerItems (powerHold clk r holdTimeMs s) ! p)) (clk (ticks s)) =
          holdTimeMs \<and>
        mssleep_of (sleepUntil (powerItems (powerHold clk r holdTimeMs s) ! p)) (clk (ticks s)) =
          s32 holdTimeMs \<and>
        filter (\<lambda>i. ref i \<noteq> r) (powerItems (powerHold clk r holdTimeMs s)) =
          filter (\<lambda>i. ref i \<noteq> r) (powerItems s) \<and>
        savedWakeTimestamp (powerHold clk r holdTimeMs s) = savedWakeTimestamp s \<and>
        powerMode (powerHold clk r holdTimeMs s) = powerMode s \<and>
        cbCalls (powerHold clk r holdTimeMs s) = cbCalls s \<and>
        tmrResets (powerHold clk r holdTimeMs s) = tmrResets s \<and>
        pdCb (powerHold clk r holdTimeMs s) = pdCb s"
proof -
  obtain p "is" where f: "findItem r (powerItems s) = (p, is)"
    by (cases "findItem r (powerItems s)")
  let ?x = "(is ! p)\<lparr>sleepUntil := addMs (clk (ticks s)) holdTimeMs, state := ST_ACTIVE\<rparr>"
  from findItem_cases[OF f] have
    lk: "lookupItem r is = Some p" and p: "p < length is" and rp: "ref (is ! p) = r" and
    fl: "filter (\<lambda>i. ref i \<noteq> r) is = filter (\<lambda>i. ref i \<noteq> r) (powerItems s)"
    by simp_all
  have items: "powerItems (powerHold clk r holdTimeMs s) = is[p := ?x]"
    using f by (simp add: powerHold_def gettimeofday_def)
  have "map ref (is[p := ?x]) = map ref is"
    using p rp by (simp add: map_update list_update_same_conv)
  then have "lookupItem r (is[p := ?x]) = Some p"
    using lk lookupItem_map_ref by metis
  moreover have "filter (\<lambda>i. ref i \<noteq> r) (is[p := ?x]) = filter (\<lambda>i. ref i \<noteq> r) (powerItems s)"
    using filter_update_ref[OF p rp, of ?x] rp fl by simp
  moreover have "savedWakeTimestamp (powerHold clk r holdTimeMs s) = savedWakeTimestamp s"
    "powerMode (powerHold clk r holdTimeMs s) = powerMode s"
    "cbCalls (powerHold clk r holdTimeMs s) = cbCalls s"
    "tmrResets (powerHold clk r holdTimeMs s) = tmrResets s"
    "pdCb (powerHold clk r holdTimeMs s) = pdCb s"
    using f by (simp_all add: powerHold_def gettimeofday_def)
  ultimately show ?thesis
    using p by (simp add: items us_of_addMs msdiff_addMs mssleep_addMs)
qed

theorem hold_touches_only_owner_witness:
  "savedWakeTimestamp (powerHold clk100 7 2500 (mkState [mkItem 1 ST_CANSLEEP (mkTime 0 0)] [3, 4] 0))
     = [3, 4] \<and>
   cbCalls (powerHold clk100 7 2500 (mkState [mkItem 1 ST_CANSLEEP (mkTime 0 0)] [3, 4] 0)) = [] \<and>
   tmrResets (powerHold clk100 7 2500 (mkState [mkItem 1 ST_CANSLEEP (mkTime 0 0)] [3, 4] 0)) = 0 \<and>
   filter (\<lambda>i. ref i \<noteq> 7)
     (powerItems (powerHold clk100 7 2500 (mkState [mkItem 1 ST_CANSLEEP (mkTime 0 0)] [3, 4] 0)))
     = [mkItem 1 ST_CANSLEEP (mkTime 0 0)]"
proof -
  let ?s = "mkState [mkItem 1 ST_CANSLEEP (mkTime 0 0)] [3, 4] 0"
  from hold_touches_only_owner[of 7 clk100 2500 ?s] have
    "filter (\<lambda>i. ref i \<noteq> 7) (powerItems (powerHold clk100 7 2500 ?s)) =
       filter (\<lambda>i. ref i \<noteq> 7) (powerItems ?s)"
    "savedWakeTimestamp (powerHold clk100 7 2500 ?s) = savedWakeTimestamp ?s"
    "cbCalls (powerHold clk100 7 2500 ?s) = cbCalls ?s"
    "tmrResets (powerHold clk100 7 2500 ?s) = tmrResets ?s"
    by blast+
  moreover have "powerItems ?s = [mkItem 1 ST_CANSLEEP (mkTime 0 0)]"
    "savedWakeTimestamp ?s = [3, 4]" "cbCalls ?s = []" "tmrResets ?s = 0"
    by (simp_all add: mkState_def)
  moreover have "ref (mkItem 1 ST_CANSLEEP (mkTime 0 0)) \<noteq> 7"
    by (simp add: mkItem_def)
  ultimately show ?thesis
    by simp
qed

subsection \<open>Permissions without a deadline\<close>

lemma scanItems_map_ref: "map ref (fst (scanItems clk t is c b)) = map ref is"
  by (rule nth_equalityI) (simp_all add: scanItems_length scanItems_sleepUntil)

lemma released_scan:
  assumes "released r is"
  shows "released r (fst (scanItems clk t is c b))"
proof -
  from assms obtain k where k: "lookupItem r is = Some k" "state (is ! k) = ST_CANSLEEP"
    by (auto simp: released_def split: option.splits)
  then have "k < length is" by (simp add: lookupItem_Some)
  then have "state (fst (scanItems clk t is c b) ! k) = ST_CANSLEEP"
    using k(2) by (simp add: scanItems_nth checkItem_cansleep)
  moreover have "lookupItem r (fst (scanItems clk t is c b)) = Some k"
    using k(1) lookupItem_map_ref[OF scanItems_map_ref] by simp
  ultimately show ?thesis by (simp add: released_def)
qed

lemma released_checkCanSleep:
  "released r (powerItems s) \<Longrightarrow> released r (powerItems (checkCanSleep clk s))"
  by (simp add: checkCanSleep_items released_scan)

lemma released_findItem:
  assumes "findItem r' is = (p, is')" and "r' \<noteq> r" and "released r is" and "ref x = r'"
  shows "released r (is'[p := x])"
proof -
  from assms(3) obtain k where k: "lookupItem r is = Some k" "state (is ! k) = ST_CANSLEEP"
    by (auto simp: released_def split: option.splits)
  from findItem_cases[OF assms(1)] have p: "p < length is'" "ref (is' ! p) = r'"
    by simp_all
  have "\<exists>k'. lookupItem r is' = Some k' \<and> is' ! k' = is ! k"
    using assms(1,2) k(1) by (auto simp: findItem_def newItem_def split: option.splits)
  then obtain k' where k': "lookupItem r is' = Some k'" "is' ! k' = is ! k"
    by blast
  from lookupItem_Some[OF k'(1)] have "ref (is' ! k') = r" by simp
  with p(2) assms(2) have "k' \<noteq> p" by auto
  have "map ref (is'[p := x]) = map ref is'"
    using p assms(4) by (simp add: map_update list_update_same_conv)
  then have "lookupItem r (is'[p := x]) = Some k'"
    using k'(1) lookupItem_map_ref by metis
  moreover have "state (is'[p := x] ! k') = ST_CANSLEEP"
    using \<open>k' \<noteq> p\<close> k'(2) k(2) by simp
  ultimately show ?thesis by (simp add: released_def)
qed

lemma released_own:
  assumes "findItem r is = (p, is')"
  shows "released r (is'[p := (is' ! p)\<lparr>state := ST_CANSLEEP\<rparr>])"
proof -
  from findItem_cases[OF assms] have p: "lookupItem r is' = Some p" "p < length is'" "ref (is' ! p) = r"
    by simp_all
  have "map ref (is'[p := (is' ! p)\<lparr>state := ST_CANSLEEP\<rparr>]) = map ref is'"
    using p by (simp add: map_update list_update_same_conv)
  then have "lookupItem r (is'[p := (is' ! p)\<lparr>state := ST_CANSLEEP\<rparr>]) = Some p"
    using p(1) lookupItem_map_ref by metis
  then show ?thesis using p(2) by (simp add: released_def)
qed

lemma released_powerCanSleep: "released r (powerItems (powerCanSleep clk r s))"
proof -
  obtain p "is" where f: "findItem r (powerItems s) = (p, is)"
    by (cases "findItem r (powerItems s)")
  show ?thesis
    using released_own[OF f] by (simp add: powerCanSleep_def f released_checkCanSleep)
qed

lemma released_perform:
  assumes "released r (powerItems s)" and "\<not> rearms r c"
  shows "released r (powerItems (perform clk c s))"
proof (cases c)
  case (Hold r' ms)
  obtain p "is" where f: "findItem r' (powerItems s) = (p, is)"
    by (cases "findItem r' (powerItems s)")
  from findItem_cases[OF f] have "ref (is ! p) = r'" by simp
  then show ?thesis
    using assms Hold f released_findItem[OF f, of r]
    by (simp add: powerHold_def gettimeofday_def)
next
  case (CanSleepFor r' ms)
  obtain p "is" where f: "findItem r' (powerItems s) = (p, is)"
    by (cases "findItem r' (powerItems s)")
  from findItem_cases[OF f] have "ref (is ! p) = r'" by simp
  then show ?thesis
    using assms CanSleepFor f released_findItem[OF f, of r]
    by (simp add: powerCanSleepFor_def gettimeofday_def released_checkCanSleep)
next
  case (CanSleep r')
  show ?thesis
  proof (cases "r' = r")
    case True
    then show ?thesis using CanSleep by (simp add: released_powerCanSleep)
  next
    case False
    obtain p "is" where f: "findItem r' (powerItems s) = (p, is)"
      by (cases "findItem r' (powerItems s)")
    from findItem_cases[OF f] have "ref (is ! p) = r'" by simp
    then show ?thesis
      using assms CanSleep f False released_findItem[OF f, of r]
      by (simp add: powerCanSleep_def released_checkCanSleep)
  qed
next
  case Timer
  then show ?thesis using assms by (simp add: pwrdwnmgrTimer_def released_checkCanSleep)
qed

lemma released_performAll:
  "released r (powerItems s) \<Longrightarrow> \<forall>c \<in> set cs. \<not> rearms r c \<Longrightarrow>
   released r (powerItems (performAll clk cs s))"
  by (induction cs arbitrary: s) (simp_all add: released_perform)

text \<open>Claim C8. After \<open>_powerCanSleep\<close> for an owner, and after any further calls
  among which the owner's own are only \<open>_powerCanSleep\<close> again (repeated any number
  of times; calls of other owners and timer passes are free), the owner's item is in
  state \<open>ST_CANSLEEP\<close>, and the loop body of a pass leaves \<open>canSleepForMs\<close> and
  \<open>cannotSleep\<close> as they are when it examines that item.\<close>

theorem permit_sleep_idempotent:
  assumes "\<forall>c \<in> set cs. \<not> rearms r c"
  shows "\<exists>k. lookupItem r (powerItems (performAll clk cs (powerCanSleep clk r s))) = Some k \<and>
             state (powerItems (performAll clk cs (powerCanSleep clk r s)) ! k) = ST_CANSLEEP \<and>
             checkItem now (powerItems (performAll clk cs (powerCanSleep clk r s)) ! k) c b =
               (powerItems (performAll clk cs (powerCanSleep clk r s)) ! k, c, b)"
proof -
  have "released r (powerItems (performAll clk cs (powerCanSleep clk r s)))"
    using assms by (intro released_performAll released_powerCanSleep)
  then show ?thesis
    by (auto simp: released_def checkItem_cansleep split: option.splits)
qed

theorem permit_sleep_idempotent_witness:
  "\<not> rearms 7 (CanSleep 7) \<and> \<not> rearms 7 (Hold 3 500) \<and> \<not> rearms 7 Timer \<and>
   released 7 (powerItems (performAll clk100 [CanSleep 7, Hold 3 500, Timer, CanSleep 7]
     (powerCanSleep clk100 7 (mkState [] [0, 0] 0))))"
proof -
  let ?cs = "[CanSleep 7, Hold 3 500, Timer, CanSleep 7]"
  have h: "\<forall>c \<in> set ?cs. \<not> rearms 7 c"
    by simp
  let ?s = "performAll clk100 ?cs (powerCanSleep clk100 7 (mkState [] [0, 0] 0))"
  from permit_sleep_idempotent[OF h, of clk100 "mkState [] [0, 0] 0"]
  obtain k where "lookupItem 7 (powerItems ?s) = Some k" "state (powerItems ?s ! k) = ST_CANSLEEP"
    by blast
  then have "released 7 (powerItems ?s)"
    by (simp add: released_def)
  then show ?thesis
    by simp
qed

subsection \<open>The verdict of a pass\<close>







lemma dueMode_cong:
  "savedWakeTimestamp s' = savedWakeTimestamp s \<Longrightarrow> dueMode now s' = dueMode now s"
  by (simp add: dueMode_def fun_eq_iff)

lemma wakeScan_still:
  "\<forall>t. clk t = now \<Longrightarrow>
   cbCalls (fst (wakeScan clk js s b)) =
     cbCalls s @ (if pdCb s then map (Pair 0) (filter (dueMode now s) js) else []) \<and>
   snd (wakeScan clk js s b) = (b \<or> filter (dueMode now s) js \<noteq> [])"
proof (induction js arbitrary: s b)
  case Nil
  then show ?case by simp
next
  case (Cons j js)
  let ?s1 = "s\<lparr>ticks := Suc (ticks s)\<rparr>"
  have d1: "dueMode now ?s1 = dueMode now s" "dueMode now (doSleep 0 j ?s1) = dueMode now s"
    by (rule dueMode_cong, simp add: doSleep_frame)+
  show ?case
  proof (cases "dueMode now s j")
    case True
    then have "wakeScan clk (j # js) s b = wakeScan clk js (doSleep 0 j ?s1) True"
      using Cons.prems by (simp add: dueMode_def getCurrentTimeMs_eq)
    then show ?thesis
      using Cons.IH[OF Cons.prems, of "doSleep 0 j ?s1" True] True d1
      by (simp add: doSleep_calls doSleep_frame)
  next
    case False
    then have "wakeScan clk (j # js) s b = wakeScan clk js ?s1 b \<or>
               wakeScan clk (j # js) s b = wakeScan clk js s b"
      using Cons.prems by (auto simp: dueMode_def getCurrentTimeMs_eq)
    then show ?thesis
      using Cons.IH[OF Cons.prems, of ?s1 b] Cons.IH[OF Cons.prems, of s b] False d1
      by auto
  qed
qed


lemma dueModes_scanPhase:
  "filter (dueMode now (fst (scanPhase clk s)))
     [Suc (powerMode (fst (scanPhase clk s))) ..< NO_POWER_MODES (fst (scanPhase clk s))] =
   dueModes now s"
proof -
  have "dueMode now (fst (scanPhase clk s)) = dueMode now s"
    by (rule dueMode_cong) (simp add: scanPhase_frame)
  then show ?thesis
    by (simp add: dueModes_def scanPhase_frame NO_POWER_MODES_scanPhase)
qed

lemma wakePhase_still:
  assumes "\<forall>t. clk t = now"
  shows "cbCalls (fst (wakePhase clk (fst (scanPhase clk s)) b)) =
           cbCalls s @ (if pdCb s then map (Pair 0) (dueModes now s) else []) \<and>
         snd (wakePhase clk (fst (scanPhase clk s)) b) = (b \<or> dueModes now s \<noteq> [])"
proof -
  let ?s1 = "fst (scanPhase clk s)"
  from wakeScan_still[OF assms, of "[Suc (powerMode ?s1) ..< NO_POWER_MODES ?s1]" ?s1 b]
  show ?thesis
    unfolding wakePhase_def dueModes_scanPhase by (simp add: scanPhase_frame)
qed




lemma wakeScan_quiet:
  "\<not> snd (wakeScan clk js s b) \<Longrightarrow> cbCalls (fst (wakeScan clk js s b)) = cbCalls s"
proof (induction js arbitrary: s b)
  case Nil
  then show ?case by simp
next
  case (Cons j js)
  let ?s1 = "s\<lparr>ticks := Suc (ticks s)\<rparr>"
  show ?case
  proof (cases "savedWakeTimestamp s ! j \<noteq> 0 \<and> savedWakeTimestamp s ! j < ms_of (clk (ticks s))")
    case True
    then have "wakeScan clk (j # js) s b = wakeScan clk js (doSleep 0 j ?s1) True"
      by (simp add: getCurrentTimeMs_eq)
    then have "snd (wakeScan clk (j # js) s b)"
      by (simp add: wakeScan_flag_mono)
    with Cons.prems show ?thesis by simp
  next
    case False
    then have "wakeScan clk (j # js) s b = wakeScan clk js ?s1 b \<or>
               wakeScan clk (j # js) s b = wakeScan clk js s b"
      by (auto simp: getCurrentTimeMs_eq)
    then show ?thesis
      using Cons.IH[of ?s1 b] Cons.IH[of s b] Cons.prems by auto
  qed
qed

lemma wakeScan_ticks: "ticks s \<le> ticks (fst (wakeScan clk js s b))"
proof (induction js arbitrary: s b)
  case Nil
  then show ?case by simp
next
  case (Cons j js)
  let ?s1 = "s\<lparr>ticks := Suc (ticks s)\<rparr>"
  have "ticks (doSleep 0 j ?s1) \<le> ticks (fst (wakeScan clk js (doSleep 0 j ?s1) True))"
    "ticks ?s1 \<le> ticks (fst (wakeScan clk js ?s1 b))"
    "ticks s \<le> ticks (fst (wakeScan clk js s b))"
    by (rule Cons.IH)+
  then show ?case
    by (auto simp: getCurrentTimeMs_eq doSleep_frame)
qed


lemma sleepPhase_calls:
  "\<exists>new. cbCalls (sleepPhase clk c s) = cbCalls s @ new \<and> length new \<le> 1"
  by (simp add: sleepPhase_def getCurrentTimeMs_eq Let_def doSleep_calls)


lemma free_pass:
  assumes "\<not> passBlocked clk s"
  shows "checkCanSleep clk s = xTimerReset (sleepPhase clk (passSleepMs clk s) (beforeSleep clk s))"
    and "cbCalls (beforeSleep clk s) = cbCalls s"
    and "savedWakeTimestamp (beforeSleep clk s) = savedWakeTimestamp s"
    and "powerMode (beforeSleep clk s) = powerMode s"
    and "pdCb (beforeSleep clk s) = pdCb s"
proof -
  let ?s1 = "fst (scanPhase clk s)"
  let ?b1 = "snd (snd (scanPhase clk s))"
  have nb: "\<not> snd (wakePhase clk ?s1 ?b1)"
    using assms by (simp add: passBlocked_def case_prod_beta)
  then show "cbCalls (beforeSleep clk s) = cbCalls s"
    unfolding wakePhase_def beforeSleep_def by (simp add: wakeScan_quiet scanPhase_frame)
  show "checkCanSleep clk s =
      xTimerReset (sleepPhase clk (passSleepMs clk s) (beforeSleep clk s))"
    using assms by (simp add: checkCanSleep_free passSleepMs_def beforeSleep_def)
  show "savedWakeTimestamp (beforeSleep clk s) = savedWakeTimestamp s"
    "powerMode (beforeSleep clk s) = powerMode s" "pdCb (beforeSleep clk s) = pdCb s"
    by (simp_all add: beforeSleep_def wakePhase_def wakeScan_frame scanPhase_frame)
qed

text \<open>In a pass that reads one instant \<open>now\<close> throughout and finds at most one due
  mode above the current one, the callback is invoked at most once.\<close>

lemma at_most_one_call:
  assumes "\<forall>t. clk t = now" and "length (dueModes now s) \<le> 1"
  shows "length (passCalls clk s) \<le> 1"
proof (cases "passBlocked clk s")
  case True
  let ?s1 = "fst (scanPhase clk s)"
  let ?b1 = "snd (snd (scanPhase clk s))"
  have "cbCalls (fst (wakePhase clk ?s1 ?b1)) =
      cbCalls s @ (if pdCb s then map (Pair 0) (dueModes now s) else [])"
    using wakePhase_still[OF assms(1)] by blast
  then have "passCalls clk s = (if pdCb s then map (Pair 0) (dueModes now s) else [])"
    using True by (simp add: passCalls_def checkCanSleep_blocked xTimerReset_frame)
  then show ?thesis using assms(2) by simp
next
  case False
  let ?u = "beforeSleep clk s"
  from sleepPhase_calls[of clk "passSleepMs clk s" ?u] obtain new where
    "cbCalls (sleepPhase clk (passSleepMs clk s) ?u) = cbCalls ?u @ new" "length new \<le> 1"
    by blast
  then show ?thesis
    using free_pass(1,2)[OF False] by (simp add: passCalls_def xTimerReset_frame)
qed


lemma at_most_one_call_instance:
  "dueModes (mkTime 100 0) (mkState [] [0, 5, 0] 0) = [1] \<and>
   length (passCalls clk100 (mkState [] [0, 5, 0] 0)) \<le> 1"
proof -
  have h1: "\<forall>t. clk100 t = mkTime 100 0"
    by (simp add: clk100_def)
  have d: "dueModes (mkTime 100 0) (mkState [] [0, 5, 0] 0) = [1]"
    by code_simp
  then have h2: "length (dueModes (mkTime 100 0) (mkState [] [0, 5, 0] 0)) \<le> 1"
    by simp
  from at_most_one_call[OF h1 h2] d show ?thesis
    by simp
qed

subsection \<open>The sleep duration\<close>






subsection \<open>The dispatch of due modes\<close>

text \<open>Claim C6 at a failing input: three modes, running in mode 0, with the wake
  timestamps 5 and 7 of modes 1 and 2 both below the instant read. The loop of lines
  119 to 125 does not stop at the first due mode, and the callback is invoked twice
  in the one pass.\<close>

theorem two_due_modes_two_calls:
  "passCalls clk100 (mkState [] [0, 5, 7] 0) = [(0, 1), (0, 2)] \<and>
   \<not> length (passCalls clk100 (mkState [] [0, 5, 7] 0)) \<le> 1"
  by code_simp

subsection \<open>The nearest mode\<close>

text \<open>When the entry of mode 0 is not 0, the scan of lines 131 to 136 returns a mode
  with the least nonzero entry of the table, and the lowest such mode.\<close>

lemma nearestScan_from:
  assumes "m < a" and "a \<le> n" and "tbl ! m \<noteq> 0"
    and "\<forall>i<a. tbl ! i \<noteq> 0 \<longrightarrow> tbl ! m \<le> tbl ! i"
    and "\<forall>i<m. tbl ! i \<noteq> 0 \<longrightarrow> tbl ! m < tbl ! i"
  shows "nearestScan tbl [a ..< n] m < n \<and> tbl ! nearestScan tbl [a ..< n] m \<noteq> 0 \<and>
         (\<forall>i<n. tbl ! i \<noteq> 0 \<longrightarrow> tbl ! nearestScan tbl [a ..< n] m \<le> tbl ! i) \<and>
         (\<forall>i<nearestScan tbl [a ..< n] m. tbl ! i \<noteq> 0 \<longrightarrow>
            tbl ! nearestScan tbl [a ..< n] m < tbl ! i)"
  using assms
proof (induction "n - a" arbitrary: a m)
  case 0
  then have "a = n" by simp
  with 0 show ?case by simp
next
  case (Suc d)
  then have an: "a < n" by simp
  let ?m = "if tbl ! a \<noteq> 0 \<and> tbl ! a < tbl ! m then a else m"
  have step: "nearestScan tbl [a ..< n] m = nearestScan tbl [Suc a ..< n] ?m"
    using an by (simp add: upt_conv_Cons)
  have "d = n - Suc a" using Suc.hyps(2) by simp
  moreover have "?m < Suc a" using Suc.prems(1) by simp
  moreover have "Suc a \<le> n" using an by simp
  moreover have "tbl ! ?m \<noteq> 0" using Suc.prems(3) by simp
  moreover have "\<forall>i<Suc a. tbl ! i \<noteq> 0 \<longrightarrow> tbl ! ?m \<le> tbl ! i"
  proof (intro allI impI)
    fix i assume i: "i < Suc a" "tbl ! i \<noteq> 0"
    show "tbl ! ?m \<le> tbl ! i"
    proof (cases "i = a")
      case True
      then show ?thesis using i(2) by auto
    next
      case False
      with i have "tbl ! m \<le> tbl ! i" using Suc.prems(4) by simp
      then show ?thesis by auto
    qed
  qed
  moreover have "\<forall>i<?m. tbl ! i \<noteq> 0 \<longrightarrow> tbl ! ?m < tbl ! i"
  proof (intro allI impI)
    fix i assume i: "i < ?m" "tbl ! i \<noteq> 0"
    show "tbl ! ?m < tbl ! i"
    proof (cases "tbl ! a \<noteq> 0 \<and> tbl ! a < tbl ! m")
      case True
      with i have "i < a" by simp
      with i(2) have "tbl ! m \<le> tbl ! i" using Suc.prems(4) by simp
      with True show ?thesis by auto
    next
      case False
      with i Suc.prems(5) show ?thesis by auto
    qed
  qed
  ultimately show ?case
    unfolding step by (rule Suc.hyps(1))
qed

lemma nearestScan_least:
  assumes "tbl ! 0 \<noteq> 0" and "0 < n"
  shows "nearestScan tbl [0 ..< n] 0 < n \<and> tbl ! nearestScan tbl [0 ..< n] 0 \<noteq> 0 \<and>
         (\<forall>i<n. tbl ! i \<noteq> 0 \<longrightarrow> tbl ! nearestScan tbl [0 ..< n] 0 \<le> tbl ! i) \<and>
         (\<forall>i<nearestScan tbl [0 ..< n] 0. tbl ! i \<noteq> 0 \<longrightarrow>
            tbl ! nearestScan tbl [0 ..< n] 0 < tbl ! i)"
proof -
  have "nearestScan tbl [0 ..< n] 0 = nearestScan tbl [Suc 0 ..< n] 0"
    using assms(2) by (simp add: upt_conv_Cons)
  moreover have "nearestScan tbl [Suc 0 ..< n] 0 < n \<and> tbl ! nearestScan tbl [Suc 0 ..< n] 0 \<noteq> 0 \<and>
         (\<forall>i<n. tbl ! i \<noteq> 0 \<longrightarrow> tbl ! nearestScan tbl [Suc 0 ..< n] 0 \<le> tbl ! i) \<and>
         (\<forall>i<nearestScan tbl [Suc 0 ..< n] 0. tbl ! i \<noteq> 0 \<longrightarrow>
            tbl ! nearestScan tbl [Suc 0 ..< n] 0 < tbl ! i)"
    using assms by (intro nearestScan_from) auto
  ultimately show ?thesis by simp
qed

text \<open>Claim C4 at a failing input: running in mode 1 on a table of zeros, no items.
  The pass stores 99999 for mode 1, the only nonzero entry, but the scan of lines 131
  to 136 starts from mode 0 and never leaves it, an entry of 0 being below every
  other: the callback is invoked for mode 0 with the duration \<open>0 - 100000\<close>.\<close>

theorem nearest_mode_zero_entry:
  "cbCalls (checkCanSleep clk100 (mkState [] [0, 0] 1)) = [(- 100000, 0)] \<and>
   savedWakeTimestamp (checkCanSleep clk100 (mkState [] [0, 0] 1)) = [0, 99999] \<and>
   nearestScan [0, 99999] [0 ..< 2] 0 = 0"
  by code_simp



subsection \<open>Sleep without a bound\<close>








end
